theory Spec2Isabelle
  imports Complex_Main "HOL-Library.Multiset" "HOL-Library.Sublist"
begin

section \<open>cluster.py: clustering text lines by character n-grams\<close>

text \<open>
  A shallow embedding of \<^verbatim>\<open>src/cluster.py\<close> (Python 2). Strings are \<open>string\<close>
  (Python 2 \<^verbatim>\<open>str\<close>: a sequence of bytes), Python integers are \<open>int\<close> or \<open>nat\<close>
  where the value cannot be negative, a raised exception is the \<open>Inl\<close> of a sum.
\<close>

subsection \<open>Default values (lines 33 to 36)\<close>

definition N :: nat where
  \<comment> \<open>Size of NGRAMs\<close>
  "N = 2"

definition N_COMPONENTS :: nat where
  \<comment> \<open>PCA components\<close>
  "N_COMPONENTS = 50"

definition EPSILON :: real where
  \<comment> \<open>DBSCAN epsilon: the literal 5.4, which the code only hands on to DBSCAN\<close>
  "EPSILON = 54 / 10"

definition MIN_SAMPLES :: nat where
  \<comment> \<open>DBSCAN min samples\<close>
  "MIN_SAMPLES = 3"

subsection \<open>Python built-ins used by the code\<close>

text \<open>
  \<^verbatim>\<open>name[i:j]\<close> for \<open>0 \<le> i \<le> j\<close>: the slice is clipped at the end of the string, it
  never raises.
\<close>

definition slice :: "string \<Rightarrow> nat \<Rightarrow> nat \<Rightarrow> string" where
  "slice s i j = take (j - i) (drop i s)"

text \<open>
  \<^verbatim>\<open>xrange(k)\<close> for a Python integer \<open>k\<close>: the indices \<open>0, ..., k - 1\<close>, none when
  \<open>k \<le> 0\<close>.
\<close>

definition xrange :: "int \<Rightarrow> nat list" where
  "xrange k = [0 ..< nat k]"

text \<open>
  A Python \<^verbatim>\<open>set\<close> of strings, kept as a list without repetition. \<^verbatim>\<open>ngrams.add(x)\<close>
  changes nothing when \<open>x\<close> is a member. Python leaves the iteration order of a set
  unspecified; the model lists the elements in the order of their first insertion, and
  no theorem below depends on that order.
\<close>

definition set_add :: "string list \<Rightarrow> string \<Rightarrow> string list" where
  "set_add S x = (if x \<in> set S then S else S @ [x])"

text \<open>
  \<^verbatim>\<open>s.count(sub)\<close>: the number of non-overlapping occurrences of \<open>sub\<close> in \<open>s\<close>, found
  by scanning from the left and resuming the search behind each occurrence found. For
  the empty \<open>sub\<close> Python returns \<open>len(s) + 1\<close>.
\<close>

function str_count :: "string \<Rightarrow> string \<Rightarrow> nat" where
  "str_count s sub =
     (if sub = [] then length s + 1
      else if length s < length sub then 0
      else if take (length sub) s = sub then 1 + str_count (drop (length sub) s) sub
      else str_count (tl s) sub)"
  by pat_completeness auto
termination
  by (relation "measure (\<lambda>(s, sub). length s)") (auto simp: neq_Nil_conv)

declare str_count.simps [simp del]

subsection \<open>build_ngrams (lines 39 to 57)\<close>

text \<open>The inner loop of \<^verbatim>\<open>build_ngrams\<close>: the n-grams of one name are added to the set.\<close>

definition add_ngrams :: "string list \<Rightarrow> string \<Rightarrow> string list" where
  "add_ngrams ngrams name =
     foldl (\<lambda>S i. set_add S (slice name i (i + N))) ngrams
       (xrange (int (length name) - int N + 1))"

definition build_ngrams :: "string list \<Rightarrow> string list" where
  "build_ngrams names = foldl add_ngrams [] names"

subsection \<open>The scikit-learn routines\<close>

text \<open>
  \<^verbatim>\<open>StandardScaler().fit_transform(X)\<close>, \<^verbatim>\<open>PCA(n_components=k).fit_transform(X)\<close> and
  \<^verbatim>\<open>DBSCAN(eps=e, min_samples=m).fit_predict(X)\<close> are routines of scikit-learn; their
  code is no part of this program. They are parameters of the model: \<open>'e\<close> is the type of
  the exceptions they raise and \<open>'m\<close> the type of the arrays they return, which the
  program hands from one routine to the next without looking into them.
\<close>

record ('e, 'm) sklearn =
  scaler_fit_transform :: "real list list \<Rightarrow> 'e + 'm"
  pca_fit_transform :: "nat \<Rightarrow> 'm \<Rightarrow> 'e + 'm"
  dbscan_fit_predict :: "real \<Rightarrow> nat \<Rightarrow> 'm \<Rightarrow> 'e + int list"

subsection \<open>build_features (lines 60 to 88)\<close>

text \<open>
  Line 83, the row of one name: \<^verbatim>\<open>float(name.count(ngram))\<close> for every n-gram of the
  vocabulary. A count is at most the length of the name, so the conversion is exact.
\<close>

definition build :: "string list \<Rightarrow> string \<Rightarrow> real list" where
  "build ngrams name = map (\<lambda>ngram. real (str_count name ngram)) ngrams"

text \<open>
  Lines 81 to 84, the local \<^verbatim>\<open>X\<close>: the matrix of counts before normalisation, as the
  list of its rows. (For no names at all numpy builds the array of shape \<open>(0,)\<close>, which
  is the empty list of rows here.)
\<close>

definition features_X :: "string list \<Rightarrow> real list list" where
  "features_X names = (let ngrams = build_ngrams names in map (build ngrams) names)"

definition build_features :: "('e, 'm) sklearn \<Rightarrow> string list \<Rightarrow> 'e + 'm" where
  "build_features lib names =
     (let X = features_X names in
      case scaler_fit_transform lib X of
        Inl e \<Rightarrow> Inl e
      | Inr X_n \<Rightarrow> pca_fit_transform lib N_COMPONENTS X_n)"

subsection \<open>clusternames (lines 91 to 114)\<close>

text \<open>
  The \<^verbatim>\<open>defaultdict(list)\<close> of line 111 is an association list with one entry per key.
  \<^verbatim>\<open>ordered[label].append(name)\<close> makes the entry \<open>[name]\<close> for a key that is new and
  appends to the entry of a key that is present. The entries are kept in the order in
  which their keys came; Python 2 iterates a dict in an order of its own, and no theorem
  below depends on the order of the entries.
\<close>

fun append_name :: "(int \<times> string list) list \<Rightarrow> int \<times> string \<Rightarrow> (int \<times> string list) list" where
  "append_name ordered (label, name) =
     (if label \<in> fst ` set ordered
      then map (\<lambda>(k, v). if k = label then (k, v @ [name]) else (k, v)) ordered
      else ordered @ [(label, [name])])"

text \<open>Lines 106 to 109: the features and the labels DBSCAN gives them.\<close>

definition cluster_labels :: "('e, 'm) sklearn \<Rightarrow> string list \<Rightarrow> 'e + int list" where
  "cluster_labels lib names =
     (case build_features lib names of
        Inl e \<Rightarrow> Inl e
      | Inr X_n \<Rightarrow> dbscan_fit_predict lib EPSILON MIN_SAMPLES X_n)"

text \<open>
  Lines 111 to 113: the loop over \<^verbatim>\<open>izip(labels, names)\<close>, which stops at the end of the
  shorter of the two.
\<close>

definition order_names :: "int list \<Rightarrow> string list \<Rightarrow> (int \<times> string list) list" where
  "order_names labels names = foldl append_name [] (zip labels names)"

definition clusternames :: "('e, 'm) sklearn \<Rightarrow> string list \<Rightarrow> 'e + (int \<times> string list) list" where
  "clusternames lib names =
     (case cluster_labels lib names of
        Inl e \<Rightarrow> Inl e
      | Inr labels \<Rightarrow> Inr (order_names labels names))"

subsection \<open>print_clusters (lines 117 to 134)\<close>

datatype py_error = IndexError

text \<open>\<^verbatim>\<open>'%d' % n\<close>: the decimal digits of a Python integer, with its sign when negative.\<close>

function digits :: "nat \<Rightarrow> string" where
  "digits n =
     (if n < 10 then [''0123456789'' ! n]
      else digits (n div 10) @ [''0123456789'' ! (n mod 10)])"
  by pat_completeness auto
termination
  by (relation "measure id") auto

declare digits.simps [simp del]

definition format_d :: "int \<Rightarrow> string" where
  "format_d n = (if n < 0 then CHR ''-'' # digits (nat (- n)) else digits (nat n))"

text \<open>
  The output is the list of the printed lines, one entry for every call of \<^verbatim>\<open>print\<close>.
  Lines 126 to 131, one pass of the loop: \<^verbatim>\<open>contents[0]\<close> raises IndexError on an empty
  list. (The lines printed before an exception are not kept by the model.)
\<close>

fun print_cluster :: "int \<times> string list \<Rightarrow> py_error + string list" where
  "print_cluster (cluster, contents) =
     (if cluster \<noteq> - 1
      then (case contents of
              [] \<Rightarrow> Inl IndexError
            | first # _ \<Rightarrow>
                Inr ((''[*] --- Cluster: '' @ first @ '' ---'')
                       # map (\<lambda>item. ''[+] '' @ item) contents))
      else Inr (''[*] --- Outside any cluster ---''
                  # map (\<lambda>item. ''[+] '' @ item) contents))"

fun print_each :: "(int \<times> string list) list \<Rightarrow> py_error + string list" where
  "print_each [] = Inr []"
| "print_each (entry # entries) =
     (case print_cluster entry of
        Inl e \<Rightarrow> Inl e
      | Inr out \<Rightarrow>
          (case print_each entries of
             Inl e \<Rightarrow> Inl e
           | Inr out' \<Rightarrow> Inr (out @ out')))"

definition print_clusters :: "(int \<times> string list) list \<Rightarrow> py_error + string list" where
  "print_clusters clustered =
     (case print_each clustered of
        Inl e \<Rightarrow> Inl e
      | Inr out \<Rightarrow>
          (let n_clusters = int (length clustered) - (if - 1 \<in> fst ` set clustered then 1 else 0)
           in Inr (out @ [''[*] Estimated number of clusters: '' @ format_d n_clusters])))"

subsection \<open>Notions of the specification\<close>

text \<open>
  An occurrence of \<open>sub\<close> in \<open>s\<close> at position \<open>i\<close>, and the number of all occurrences,
  overlapping ones included.
\<close>

definition occurs_at :: "string \<Rightarrow> string \<Rightarrow> nat \<Rightarrow> bool" where
  "occurs_at s sub i \<longleftrightarrow> i + length sub \<le> length s \<and> take (length sub) (drop i s) = sub"

definition overlapping_count :: "string \<Rightarrow> string \<Rightarrow> nat" where
  "overlapping_count s sub = length (filter (occurs_at s sub) [0 ..< Suc (length s)])"

text \<open>A set of positions of occurrences of \<open>sub\<close> in \<open>s\<close> of which no two overlap.\<close>

definition non_overlapping :: "string \<Rightarrow> string \<Rightarrow> nat set \<Rightarrow> bool" where
  "non_overlapping s sub P \<longleftrightarrow>
     (\<forall>i \<in> P. occurs_at s sub i) \<and> (\<forall>i \<in> P. \<forall>j \<in> P. i < j \<longrightarrow> i + length sub \<le> j)"

text \<open>
  The cluster grouping of a list of labelled names: one entry for every label that
  occurs, holding the names with that label in the order of the list.
\<close>

definition grouped :: "(int \<times> string) list \<Rightarrow> (int \<times> string list) list \<Rightarrow> bool" where
  "grouped pairs ordered \<longleftrightarrow>
     distinct (map fst ordered) \<and> fst ` set ordered = fst ` set pairs
     \<and> (\<forall>(k, g) \<in> set ordered. g = map snd (filter (\<lambda>p. fst p = k) pairs))"

subsection \<open>The vocabulary\<close>

lemma set_set_add: "set (set_add S x) = insert x (set S)"
  by (auto simp: set_add_def)

lemma distinct_set_add: "distinct S \<Longrightarrow> distinct (set_add S x)"
  by (simp add: set_add_def)

lemma set_foldl_set_add:
  "set (foldl (\<lambda>S i. set_add S (f i)) S js) = set S \<union> f ` set js"
  by (induction js arbitrary: S) (auto simp: set_set_add)

lemma distinct_foldl_set_add:
  "distinct S \<Longrightarrow> distinct (foldl (\<lambda>S i. set_add S (f i)) S js)"
  by (induction js arbitrary: S) (auto simp: distinct_set_add)

lemma set_xrange_ngram: "set (xrange (int n - int k + 1)) = {i. i + k \<le> n}"
  by (auto simp: xrange_def)

lemma set_add_ngrams:
  "set (add_ngrams S name) = set S \<union> {take N (drop i name) | i. i + N \<le> length name}"
  by (auto simp: add_ngrams_def set_foldl_set_add set_xrange_ngram slice_def)

lemma distinct_add_ngrams: "distinct S \<Longrightarrow> distinct (add_ngrams S name)"
  by (simp add: add_ngrams_def distinct_foldl_set_add)

lemma add_ngrams_short: "length name < N \<Longrightarrow> add_ngrams S name = S"
  by (simp add: add_ngrams_def xrange_def)

lemma set_foldl_add_ngrams:
  "set (foldl add_ngrams S names) =
     set S \<union> {take N (drop i name) | i name. name \<in> set names \<and> i + N \<le> length name}"
  by (induction names arbitrary: S) (auto simp: set_add_ngrams)

lemma distinct_foldl_add_ngrams:
  "distinct S \<Longrightarrow> distinct (foldl add_ngrams S names)"
  by (induction names arbitrary: S) (auto simp: distinct_add_ngrams)

lemma ngram_iff_sublist:
  "(\<exists>i. i + k \<le> length name \<and> g = take k (drop i name)) \<longleftrightarrow> length g = k \<and> sublist g name"
proof
  assume "\<exists>i. i + k \<le> length name \<and> g = take k (drop i name)"
  then obtain i where i: "i + k \<le> length name" and g: "g = take k (drop i name)"
    by blast
  have "drop i name = g @ drop k (drop i name)"
    unfolding g by (rule append_take_drop_id [symmetric])
  then have "name = take i name @ g @ drop k (drop i name)"
    by (metis append_take_drop_id)
  then have "sublist g name"
    unfolding sublist_def by blast
  moreover have "length g = k"
    using i by (simp add: g)
  ultimately show "length g = k \<and> sublist g name"
    by simp
next
  assume "length g = k \<and> sublist g name"
  then obtain ps ss where len: "length g = k" and name: "name = ps @ g @ ss"
    unfolding sublist_def by blast
  have "length ps + k \<le> length name \<and> g = take k (drop (length ps) name)"
    by (simp add: name len)
  then show "\<exists>i. i + k \<le> length name \<and> g = take k (drop i name)"
    by blast
qed

lemma set_build_ngrams:
  "set (build_ngrams names) = {g. length g = N \<and> (\<exists>name \<in> set names. sublist g name)}"
proof -
  have "set (build_ngrams names) =
      {take N (drop i name) | i name. name \<in> set names \<and> i + N \<le> length name}"
    by (simp add: build_ngrams_def set_foldl_add_ngrams)
  also have "\<dots> = {g. \<exists>name \<in> set names. \<exists>i. i + N \<le> length name \<and> g = take N (drop i name)}"
    by blast
  also have "\<dots> = {g. length g = N \<and> (\<exists>name \<in> set names. sublist g name)}"
    unfolding ngram_iff_sublist by blast
  finally show ?thesis .
qed

lemma distinct_build_ngrams: "distinct (build_ngrams names)"
  by (simp add: build_ngrams_def distinct_foldl_add_ngrams)

lemma build_ngrams_append:
  "build_ngrams (xs @ ys) = foldl add_ngrams (build_ngrams xs) ys"
  by (simp add: build_ngrams_def)

lemma build_ngrams_skip_short:
  "length name < N \<Longrightarrow> build_ngrams (xs @ name # ys) = build_ngrams (xs @ ys)"
  by (simp add: build_ngrams_def add_ngrams_short)

lemma build_ngrams_scenario:
  "build_ngrams [''aaa'', ''aab'', ''xyz''] = [''aa'', ''ab'', ''xy'', ''yz'']"
  by (simp add: build_ngrams_def add_ngrams_def xrange_def N_def slice_def set_add_def upt_rec)

subsection \<open>What \<open>str_count\<close> counts\<close>

lemma non_overlapping_finite: "non_overlapping s sub P \<Longrightarrow> finite P"
proof -
  assume "non_overlapping s sub P"
  then have "P \<subseteq> {.. length s}"
    by (auto simp: non_overlapping_def occurs_at_def)
  then show "finite P"
    by (rule finite_subset) simp
qed

lemma occurs_at_drop:
  "k \<le> length s \<Longrightarrow> occurs_at (drop k s) sub i \<longleftrightarrow> occurs_at s sub (i + k)"
  by (auto simp: occurs_at_def add.commute)

lemma occurs_at_0: "occurs_at s sub 0 \<longleftrightarrow> length sub \<le> length s \<and> take (length sub) s = sub"
  by (simp add: occurs_at_def)

lemma non_overlapping_empty: "non_overlapping s sub {}"
  by (simp add: non_overlapping_def)

lemma non_overlapping_shift:
  assumes "non_overlapping s sub P" and "\<forall>i \<in> P. k \<le> i" and "k \<le> length s"
  shows "non_overlapping (drop k s) sub ((\<lambda>i. i - k) ` P)" and "card ((\<lambda>i. i - k) ` P) = card P"
proof -
  show "non_overlapping (drop k s) sub ((\<lambda>i. i - k) ` P)"
    unfolding non_overlapping_def
  proof (intro conjI ballI impI)
    fix a
    assume "a \<in> (\<lambda>i. i - k) ` P"
    then obtain i where i: "i \<in> P" "a = i - k"
      by blast
    then have "occurs_at s sub (a + k)"
      using assms(1,2) by (simp add: non_overlapping_def)
    then show "occurs_at (drop k s) sub a"
      using assms(3) by (simp add: occurs_at_drop)
  next
    fix a b
    assume "a \<in> (\<lambda>i. i - k) ` P" and "b \<in> (\<lambda>i. i - k) ` P" and ab: "a < b"
    then obtain i j where ij: "i \<in> P" "a = i - k" "j \<in> P" "b = j - k"
      by blast
    then have "i < j"
      using ab by arith
    then have "i + length sub \<le> j"
      using assms(1) ij by (simp add: non_overlapping_def)
    then show "a + length sub \<le> b"
      using ij assms(2) by (auto simp: le_diff_conv2)
  qed
  have "inj_on (\<lambda>i. i - k) P"
    using assms(2) by (auto simp: inj_on_def intro: diff_diff_cancel) (metis le_add_diff_inverse2)
  then show "card ((\<lambda>i. i - k) ` P) = card P"
    by (rule card_image)
qed

lemma non_overlapping_unshift:
  assumes "non_overlapping (drop k s) sub P" and "k \<le> length s"
  shows "non_overlapping s sub ((\<lambda>i. i + k) ` P)" and "card ((\<lambda>i. i + k) ` P) = card P"
proof -
  show "non_overlapping s sub ((\<lambda>i. i + k) ` P)"
    using assms by (auto simp: non_overlapping_def occurs_at_drop)
  have "inj_on (\<lambda>i. i + k) P"
    by (auto simp: inj_on_def)
  then show "card ((\<lambda>i. i + k) ` P) = card P"
    by (rule card_image)
qed


lemma str_count_attained:
  "sub \<noteq> [] \<Longrightarrow> \<exists>P. non_overlapping s sub P \<and> card P = str_count s sub"
proof (induction s sub rule: str_count.induct)
  case (1 s sub)
  let ?k = "length sub"
  have k: "0 < ?k"
    using "1.prems" by simp
  show ?case
  proof (cases "length s < ?k")
    case True
    then have "str_count s sub = 0"
      using "1.prems" by (simp add: str_count.simps)
    then show ?thesis
      using non_overlapping_empty [of s sub] by auto
  next
    case long: False
    show ?thesis
    proof (cases "take ?k s = sub")
      case True
      then obtain P where P: "non_overlapping (drop ?k s) sub P" "card P = str_count (drop ?k s) sub"
        using "1.IH"(1) "1.prems" long by blast
      let ?Q = "insert 0 ((\<lambda>i. i + ?k) ` P)"
      have shifted: "non_overlapping s sub ((\<lambda>i. i + ?k) ` P)" "card ((\<lambda>i. i + ?k) ` P) = card P"
        using non_overlapping_unshift [OF P(1)] long by simp_all
      have "occurs_at s sub 0"
        using True long by (simp add: occurs_at_0)
      then have "non_overlapping s sub ?Q"
        using shifted(1) by (auto simp: non_overlapping_def)
      moreover have "0 \<notin> (\<lambda>i. i + ?k) ` P"
        using k by auto
      then have "card ?Q = Suc (card P)"
        using shifted(2) non_overlapping_finite [OF shifted(1)] by simp
      moreover have "str_count s sub = Suc (str_count (drop ?k s) sub)"
        using True long "1.prems" by (subst str_count.simps) simp
      ultimately show ?thesis
        using P(2) by metis
    next
      case False
      then obtain P where P: "non_overlapping (tl s) sub P" "card P = str_count (tl s) sub"
        using "1.IH"(2) "1.prems" long by blast
      have s: "1 \<le> length s"
        using long k by arith
      have "non_overlapping (drop 1 s) sub P"
        using P(1) by (simp add: drop_Suc)
      then have "non_overlapping s sub ((\<lambda>i. i + 1) ` P)" "card ((\<lambda>i. i + 1) ` P) = card P"
        using non_overlapping_unshift [of 1 s sub P] s by simp_all
      moreover have "str_count s sub = str_count (tl s) sub"
        using False long "1.prems" by (subst str_count.simps) simp
      ultimately show ?thesis
        using P(2) by metis
    qed
  qed
qed

lemma str_count_greatest:
  "sub \<noteq> [] \<Longrightarrow> non_overlapping s sub P \<Longrightarrow> card P \<le> str_count s sub"
proof (induction s sub arbitrary: P rule: str_count.induct)
  case (1 s sub)
  let ?k = "length sub"
  have k: "0 < ?k"
    using "1.prems" by simp
  have fin: "finite P"
    using "1.prems"(2) by (rule non_overlapping_finite)
  show ?case
  proof (cases "length s < ?k")
    case True
    then have "P = {}"
      using "1.prems"(2) by (auto simp: non_overlapping_def occurs_at_def)
    then show ?thesis
      by simp
  next
    case long: False
    show ?thesis
    proof (cases "take ?k s = sub")
      case True
      let ?lo = "{i \<in> P. i < ?k}" and ?hi = "{i \<in> P. ?k \<le> i}"
      have "\<forall>a \<in> ?lo. \<forall>b \<in> ?lo. a = b"
      proof (intro ballI)
        fix a b
        assume "a \<in> ?lo" and "b \<in> ?lo"
        then have "a < b \<longrightarrow> a + ?k \<le> b" and "b < a \<longrightarrow> b + ?k \<le> a" and "a < ?k" and "b < ?k"
          using "1.prems"(2) by (auto simp: non_overlapping_def)
        then show "a = b"
          by arith
      qed
      then have lo: "card ?lo \<le> 1"
        using fin by (simp add: card_le_Suc0_iff_eq)
      have nhi: "non_overlapping s sub ?hi"
        using "1.prems"(2) by (simp add: non_overlapping_def)
      have hi_ge: "\<forall>i \<in> ?hi. ?k \<le> i"
        by simp
      have klen: "?k \<le> length s"
        using long by simp
      have "card ?hi = card ((\<lambda>i. i - ?k) ` ?hi)"
        by (rule non_overlapping_shift(2) [OF nhi hi_ge klen, symmetric])
      also have "\<dots> \<le> str_count (drop ?k s) sub"
        by (rule "1.IH"(1) [OF "1.prems"(1) long True "1.prems"(1)
              non_overlapping_shift(1) [OF nhi hi_ge klen]])
      finally have hi: "card ?hi \<le> str_count (drop ?k s) sub" .
      have "P = ?lo \<union> ?hi"
        by auto
      then have "card P \<le> card ?lo + card ?hi"
        by (metis card_Un_le)
      moreover have "str_count s sub = Suc (str_count (drop ?k s) sub)"
        using True long "1.prems"(1) by (subst str_count.simps) simp
      ultimately show ?thesis
        using lo hi by arith
    next
      case False
      have s: "1 \<le> length s"
        using long k by arith
      have "\<not> occurs_at s sub 0"
        using False by (simp add: occurs_at_0)
      then have pos: "\<forall>i \<in> P. 1 \<le> i"
        using "1.prems"(2) by (auto simp: non_overlapping_def Suc_le_eq intro: gr0I)
      have "non_overlapping (drop 1 s) sub ((\<lambda>i. i - 1) ` P)"
        and card: "card ((\<lambda>i. i - 1) ` P) = card P"
        using non_overlapping_shift [OF "1.prems"(2) pos s] by simp_all
      then have "non_overlapping (tl s) sub ((\<lambda>i. i - 1) ` P)"
        by (simp add: drop_Suc)
      then have "card ((\<lambda>i. i - 1) ` P) \<le> str_count (tl s) sub"
        by (rule "1.IH"(2) [OF "1.prems"(1) long False "1.prems"(1)])
      moreover have "str_count s sub = str_count (tl s) sub"
        using False long "1.prems"(1) by (subst str_count.simps) simp
      ultimately show ?thesis
        using card by simp
    qed
  qed
qed

subsection \<open>The matrix of counts\<close>

lemma ngram_nonempty: "g \<in> set (build_ngrams names) \<Longrightarrow> g \<noteq> []"
  by (auto simp: set_build_ngrams N_def)

lemma features_X_nth:
  "i < length names \<Longrightarrow> j < length (build_ngrams names) \<Longrightarrow>
     features_X names ! i ! j = real (str_count (names ! i) (build_ngrams names ! j))"
  by (simp add: features_X_def build_def)

lemma features_X_scenario:
  "features_X [''aaa'', ''aab'', ''xyz''] = [[1, 0, 0, 0], [1, 1, 0, 0], [0, 0, 1, 1]]"
  by (simp add: features_X_def build_ngrams_scenario build_def str_count.simps)

text \<open>
  C6: \<^verbatim>\<open>build_ngrams\<close> returns exactly the contiguous substrings of length \<open>N\<close> (which is
  2) of the names, each of them once; a name shorter than \<open>N\<close> adds nothing, wherever it
  stands in the corpus; for the corpus aaa, aab, xyz the vocabulary is aa, ab, xy, yz.
\<close>

theorem build_ngrams_vocabulary:
  "set (build_ngrams names) = {g. length g = N \<and> (\<exists>name \<in> set names. sublist g name)}
   \<and> distinct (build_ngrams names)
   \<and> (\<forall>name. length name < N \<longrightarrow> build_ngrams (xs @ name # ys) = build_ngrams (xs @ ys))
   \<and> N = 2
   \<and> set (build_ngrams [''aaa'', ''aab'', ''xyz'']) = {''aa'', ''ab'', ''xy'', ''yz''}"
proof -
  have "\<forall>name. length name < N \<longrightarrow> build_ngrams (xs @ name # ys) = build_ngrams (xs @ ys)"
    by (simp add: build_ngrams_skip_short)
  moreover have "set (build_ngrams [''aaa'', ''aab'', ''xyz'']) = {''aa'', ''ab'', ''xy'', ''yz''}"
    by (simp add: build_ngrams_scenario)
  ultimately show ?thesis
    using set_build_ngrams [of names] distinct_build_ngrams [of names] N_def by blast
qed

theorem build_ngrams_vocabulary_witness:
  "length ''c'' < N \<and> build_ngrams ([''ab''] @ ''c'' # []) = build_ngrams ([''ab''] @ [])
   \<and> set (build_ngrams [''ab'', ''c'']) = {''ab''}"
  using build_ngrams_vocabulary [where names = "[''ab'', ''c'']" and xs = "[''ab'']" and ys = "[]"]
  by (simp add: N_def build_ngrams_def add_ngrams_def xrange_def slice_def set_add_def)

text \<open>
  C7: the matrix of counts built before normalisation has one row for every name of the
  corpus, and every row has one column for every n-gram of the vocabulary of that
  corpus, whose length is the number of substrings of length \<open>N\<close> that occur.
\<close>

theorem features_X_shape:
  "length (features_X names) = length names
   \<and> (\<forall>row \<in> set (features_X names). length row = length (build_ngrams names))
   \<and> length (build_ngrams names) = card {g. length g = N \<and> (\<exists>name \<in> set names. sublist g name)}"
proof -
  have "card (set (build_ngrams names)) = length (build_ngrams names)"
    by (rule distinct_card) (rule distinct_build_ngrams)
  then show ?thesis
    by (auto simp: features_X_def build_def set_build_ngrams)
qed

theorem features_X_shape_witness:
  "length (features_X [''aaa'', ''aab'', ''xyz'']) = 3
   \<and> length (features_X [''aaa'', ''aab'', ''xyz''] ! 1) = length (build_ngrams [''aaa'', ''aab'', ''xyz''])
   \<and> length (build_ngrams [''aaa'', ''aab'', ''xyz'']) = 4"
  using features_X_shape [of "[''aaa'', ''aab'', ''xyz'']"]
  by (simp add: features_X_scenario build_ngrams_scenario)

text \<open>
  C1, as stated, fails: for the corpus aaa, aab, xyz the cell of the name aaa in the
  column of the n-gram aa is 1, while aa occurs in aaa twice when overlapping
  occurrences are counted.
\<close>

theorem features_X_overlapping_counterexample:
  "build_ngrams [''aaa'', ''aab'', ''xyz''] ! 0 = ''aa''
   \<and> features_X [''aaa'', ''aab'', ''xyz''] ! 0 ! 0 = 1
   \<and> overlapping_count ''aaa'' ''aa'' = 2
   \<and> features_X [''aaa'', ''aab'', ''xyz''] ! 0 ! 0
       \<noteq> real (overlapping_count ([''aaa'', ''aab'', ''xyz''] ! 0) (build_ngrams [''aaa'', ''aab'', ''xyz''] ! 0))"
  by (simp add: features_X_scenario build_ngrams_scenario overlapping_count_def occurs_at_def upt_rec)

text \<open>
  C1, amended: cell \<open>(i, j)\<close> of the matrix of counts is the number that
  \<^verbatim>\<open>names[i].count(ngrams[j])\<close> returns, which is the greatest number of pairwise
  non-overlapping occurrences of n-gram \<open>j\<close> in name \<open>i\<close>; for the corpus aaa, aab, xyz
  the row of aaa has 1 in the column of aa.
\<close>

theorem features_X_cell:
  assumes "i < length names" and "j < length (build_ngrams names)"
  shows "features_X names ! i ! j = real (str_count (names ! i) (build_ngrams names ! j))
     \<and> (\<exists>P. non_overlapping (names ! i) (build_ngrams names ! j) P
            \<and> real (card P) = features_X names ! i ! j)
     \<and> (\<forall>P. non_overlapping (names ! i) (build_ngrams names ! j) P
            \<longrightarrow> real (card P) \<le> features_X names ! i ! j)
     \<and> build_ngrams [''aaa'', ''aab'', ''xyz''] ! 0 = ''aa''
     \<and> features_X [''aaa'', ''aab'', ''xyz''] ! 0 ! 0 = 1"
proof -
  let ?s = "names ! i" and ?g = "build_ngrams names ! j"
  have g: "?g \<noteq> []"
    using assms(2) by (intro ngram_nonempty [of _ names]) simp
  have cell: "features_X names ! i ! j = real (str_count ?s ?g)"
    using assms by (rule features_X_nth)
  obtain P where "non_overlapping ?s ?g P" "card P = str_count ?s ?g"
    using str_count_attained [OF g] by blast
  then have "\<exists>P. non_overlapping ?s ?g P \<and> real (card P) = features_X names ! i ! j"
    using cell by auto
  moreover have "\<forall>P. non_overlapping ?s ?g P \<longrightarrow> real (card P) \<le> features_X names ! i ! j"
    using str_count_greatest [OF g] cell by simp
  ultimately show ?thesis
    using cell by (simp add: features_X_scenario build_ngrams_scenario)
qed

theorem features_X_cell_witness:
  "(0::nat) < length [''aaa'', ''aab'', ''xyz'']
   \<and> (0::nat) < length (build_ngrams [''aaa'', ''aab'', ''xyz''])
   \<and> features_X [''aaa'', ''aab'', ''xyz''] ! 0 ! 0 = real (str_count ''aaa'' ''aa'')
   \<and> (\<exists>P. non_overlapping ''aaa'' ''aa'' P \<and> card P = 1)"
  using features_X_cell [of 0 "[''aaa'', ''aab'', ''xyz'']" 0]
  by (simp add: features_X_scenario build_ngrams_scenario)

subsection \<open>The loop that orders the names by cluster\<close>

lemma map_fst_append_to_entry:
  "map fst (map (\<lambda>(k, v). if k = l then (k, v @ [n]) else (k, v)) ordered) = map fst ordered"
  by (induction ordered) auto

lemma append_name_keys:
  "map fst (append_name ordered (l, n)) =
     (if l \<in> fst ` set ordered then map fst ordered else map fst ordered @ [l])"
  using map_fst_append_to_entry [of l n ordered] by simp

lemma in_set_append_to_entry:
  "(k, g) \<in> set (map (\<lambda>(k, v). if k = l then (k, v @ [n]) else (k, v)) ordered) \<longleftrightarrow>
     (k \<noteq> l \<and> (k, g) \<in> set ordered) \<or> (k = l \<and> (\<exists>g'. (l, g') \<in> set ordered \<and> g = g' @ [n]))"
proof (induction ordered)
  case Nil
  then show ?case by simp
next
  case (Cons e ordered)
  obtain a b where e: "e = (a, b)"
    by (cases e)
  show ?case
  proof (cases "a = l")
    case True
    then show ?thesis
      using Cons.IH by (simp add: e) blast
  next
    case False
    then show ?thesis
      using Cons.IH by (simp add: e) blast
  qed
qed

lemma in_set_append_name:
  "(k, g) \<in> set (append_name ordered (l, n)) \<longleftrightarrow>
     (if l \<in> fst ` set ordered
      then (k \<noteq> l \<and> (k, g) \<in> set ordered) \<or> (k = l \<and> (\<exists>g'. (l, g') \<in> set ordered \<and> g = g' @ [n]))
      else (k, g) \<in> set ordered \<or> (k = l \<and> g = [n]))"
proof (cases "l \<in> fst ` set ordered")
  case True
  then show ?thesis
    using in_set_append_to_entry [of k g l n ordered] by simp
next
  case False
  then show ?thesis
    by auto
qed

lemma grouped_Nil: "grouped [] []"
  by (simp add: grouped_def)

lemma grouped_append_name:
  assumes "grouped pairs ordered"
  shows "grouped (pairs @ [(l, n)]) (append_name ordered (l, n))"
proof -
  have d: "distinct (map fst ordered)"
    and keys: "fst ` set ordered = fst ` set pairs"
    and groups: "\<And>k g. (k, g) \<in> set ordered \<Longrightarrow> g = map snd (filter (\<lambda>p. fst p = k) pairs)"
    using assms by (auto simp: grouped_def)
  have "distinct (map fst (append_name ordered (l, n)))"
    using d by (simp only: append_name_keys) auto
  moreover have "fst ` set (append_name ordered (l, n)) = fst ` set (pairs @ [(l, n)])"
  proof -
    have "fst ` set (append_name ordered (l, n)) = set (map fst (append_name ordered (l, n)))"
      by simp
    also have "\<dots> = insert l (fst ` set ordered)"
      by (simp only: append_name_keys) auto
    finally show ?thesis
      using keys by simp
  qed
  moreover have "g = map snd (filter (\<lambda>p. fst p = k) (pairs @ [(l, n)]))"
    if kg: "(k, g) \<in> set (append_name ordered (l, n))" for k g
  proof (cases "l \<in> fst ` set ordered")
    case True
    then consider "k \<noteq> l" "(k, g) \<in> set ordered"
      | g' where "k = l" "(l, g') \<in> set ordered" "g = g' @ [n]"
      using kg by (simp only: in_set_append_name if_True) blast
    then show ?thesis
    proof cases
      case 1
      then show ?thesis
        using groups [of k g] by simp
    next
      case 2
      then show ?thesis
        using groups [of l g'] by simp
    qed
  next
    case False
    then have none: "filter (\<lambda>p. fst p = l) pairs = []"
      using keys by (auto simp: filter_empty_conv)
    consider "(k, g) \<in> set ordered" | "k = l" "g = [n]"
      using kg False by (simp only: in_set_append_name if_False) blast
    then show ?thesis
    proof cases
      case 1
      then have "k \<noteq> l"
        using False by force
      then show ?thesis
        using groups [OF 1] by simp
    next
      case 2
      then show ?thesis
        using none by simp
    qed
  qed
  ultimately show ?thesis
    by (simp only: grouped_def) blast
qed

lemma grouped_foldl:
  "grouped pairs ordered \<Longrightarrow> grouped (pairs @ ps) (foldl append_name ordered ps)"
proof (induction ps arbitrary: pairs ordered)
  case Nil
  then show ?case by simp
next
  case (Cons p ps)
  obtain l n where p: "p = (l, n)"
    by (cases p)
  have "grouped ((pairs @ [(l, n)]) @ ps) (foldl append_name (append_name ordered (l, n)) ps)"
    by (rule Cons.IH) (rule grouped_append_name [OF Cons.prems])
  then show ?case
    by (simp add: p)
qed

lemma grouped_order_names: "grouped (zip labels names) (order_names labels names)"
  using grouped_foldl [OF grouped_Nil, of "zip labels names"] by (simp add: order_names_def)

lemma grouped_nonempty:
  assumes "grouped pairs ordered" and "(k, g) \<in> set ordered"
  shows "g \<noteq> []"
proof -
  have "k \<in> fst ` set ordered"
    using assms(2) by (rule image_eqI [of _ fst, rotated]) simp
  then have "k \<in> fst ` set pairs"
    using assms(1) by (simp add: grouped_def)
  then have "filter (\<lambda>p. fst p = k) pairs \<noteq> []"
    by (auto simp: filter_empty_conv)
  moreover have "g = map snd (filter (\<lambda>p. fst p = k) pairs)"
    using assms by (auto simp: grouped_def)
  ultimately show "g \<noteq> []"
    by simp
qed

lemma mset_filter_key_split:
  "k \<notin> set ks \<Longrightarrow>
     mset (map snd (filter (\<lambda>p. fst p = k) ps)) + mset (map snd (filter (\<lambda>p. fst p \<in> set ks) ps))
       = mset (map snd (filter (\<lambda>p. fst p = k \<or> fst p \<in> set ks) ps))"
  by (induction ps) auto

lemma mset_keys_filter:
  "distinct ks \<Longrightarrow>
     (\<Sum>k\<leftarrow>ks. mset (map snd (filter (\<lambda>p. fst p = k) ps)))
       = mset (map snd (filter (\<lambda>p. fst p \<in> set ks) ps))"
proof (induction ks)
  case Nil
  then show ?case by simp
next
  case (Cons k ks)
  then have "(\<Sum>k\<leftarrow>k # ks. mset (map snd (filter (\<lambda>p. fst p = k) ps)))
      = mset (map snd (filter (\<lambda>p. fst p = k) ps)) + mset (map snd (filter (\<lambda>p. fst p \<in> set ks) ps))"
    by simp
  also have "\<dots> = mset (map snd (filter (\<lambda>p. fst p = k \<or> fst p \<in> set ks) ps))"
    using Cons.prems by (intro mset_filter_key_split) simp
  finally show ?case
    by simp
qed

lemma mset_concat_groups:
  "(\<And>k g. (k, g) \<in> set ordered \<Longrightarrow> g = f k) \<Longrightarrow>
     mset (concat (map snd ordered)) = (\<Sum>k\<leftarrow>map fst ordered. mset (f k))"
proof (induction ordered)
  case Nil
  then show ?case by simp
next
  case (Cons e ordered)
  obtain a b where e: "e = (a, b)"
    by (cases e)
  have "b = f a"
    using Cons.prems [of a b] by (simp add: e)
  moreover have "mset (concat (map snd ordered)) = (\<Sum>k\<leftarrow>map fst ordered. mset (f k))"
    by (rule Cons.IH) (simp add: Cons.prems)
  ultimately show ?case
    by (simp add: e)
qed

lemma grouped_mset:
  assumes "grouped pairs ordered"
  shows "mset (concat (map snd ordered)) = mset (map snd pairs)"
proof -
  let ?f = "\<lambda>k. map snd (filter (\<lambda>p. fst p = k) pairs)"
  have d: "distinct (map fst ordered)" and keys: "set (map fst ordered) = fst ` set pairs"
    using assms by (simp_all add: grouped_def)
  have "\<And>k g. (k, g) \<in> set ordered \<Longrightarrow> g = ?f k"
    using assms by (auto simp: grouped_def)
  then have "mset (concat (map snd ordered)) = (\<Sum>k\<leftarrow>map fst ordered. mset (?f k))"
    by (rule mset_concat_groups)
  also have "\<dots> = mset (map snd (filter (\<lambda>p. fst p \<in> set (map fst ordered)) pairs))"
    by (rule mset_keys_filter [OF d])
  also have "filter (\<lambda>p. fst p \<in> set (map fst ordered)) pairs = pairs"
    unfolding keys by (simp add: filter_id_conv)
  finally show ?thesis .
qed

lemma zip_by_index:
  "length labels = length names \<Longrightarrow>
     zip labels names = map (\<lambda>i. (labels ! i, names ! i)) [0 ..< length names]"
  by (rule nth_equalityI) simp_all

lemma group_by_index:
  assumes "length labels = length names"
  shows "map snd (filter (\<lambda>p. fst p = k) (zip labels names))
           = map ((!) names) (filter (\<lambda>i. labels ! i = k) [0 ..< length names])"
  by (simp add: zip_by_index [OF assms] filter_map comp_def)

lemma clusternames_Inr:
  "clusternames lib names = Inr ordered \<longleftrightarrow>
     (\<exists>labels. cluster_labels lib names = Inr labels \<and> ordered = order_names labels names)"
  by (auto simp: clusternames_def split: sum.splits)

lemma order_names_keys:
  "length labels = length names \<Longrightarrow> fst ` set (order_names labels names) = set labels"
proof -
  assume len: "length labels = length names"
  have "fst ` set (order_names labels names) = set (map fst (zip labels names))"
    using grouped_order_names [of labels names] by (simp add: grouped_def)
  then show ?thesis
    using len by simp
qed

lemma order_names_distinct: "distinct (map fst (order_names labels names))"
  using grouped_order_names [of labels names] by (simp add: grouped_def)

lemma order_names_nonempty: "(k, g) \<in> set (order_names labels names) \<Longrightarrow> g \<noteq> []"
  by (rule grouped_nonempty [OF grouped_order_names])

lemma length_filter_not_noise:
  assumes "distinct (map fst clustered)"
  shows "length (filter (\<lambda>(k, g). k \<noteq> - 1) clustered) = card (fst ` set clustered - {- 1})"
proof -
  have "map fst (filter (\<lambda>(k, g). k \<noteq> - 1) clustered) = filter (\<lambda>k. k \<noteq> - 1) (map fst clustered)"
    by (induction clustered) auto
  then have "length (filter (\<lambda>(k, g). k \<noteq> - 1) clustered)
      = length (filter (\<lambda>k. k \<noteq> - 1) (map fst clustered))"
    by (metis length_map)
  also have "\<dots> = card (set (filter (\<lambda>k. k \<noteq> - 1) (map fst clustered)))"
    by (rule distinct_card [symmetric]) (rule distinct_filter [OF assms])
  also have "set (filter (\<lambda>k. k \<noteq> - 1) (map fst clustered)) = fst ` set clustered - {- 1}"
    by auto
  finally show ?thesis .
qed

subsection \<open>The printed report\<close>

lemma print_each_nonempty:
  "(\<And>k g. (k, g) \<in> set clustered \<Longrightarrow> g \<noteq> []) \<Longrightarrow> \<exists>out. print_each clustered = Inr out"
proof (induction clustered)
  case Nil
  then show ?case by simp
next
  case (Cons e clustered)
  obtain k g where e: "e = (k, g)"
    by (cases e)
  have "g \<noteq> []"
    using Cons.prems [of k g] by (simp add: e)
  then obtain first rest where g: "g = first # rest"
    by (cases g) auto
  obtain out where "print_each clustered = Inr out"
    using Cons.IH Cons.prems by auto
  then show ?case
    by (simp add: e g)
qed

lemma print_clusters_last:
  assumes "print_each clustered = Inr out"
  shows "\<exists>out'. print_clusters clustered = Inr out' \<and> out' \<noteq> []
     \<and> last out' = ''[*] Estimated number of clusters: ''
          @ format_d (int (length clustered) - (if - 1 \<in> fst ` set clustered then 1 else 0))"
  using assms by (simp add: print_clusters_def Let_def)

lemma count_without_noise:
  assumes "distinct (map fst clustered)"
  shows "int (length clustered) - (if - 1 \<in> fst ` set clustered then 1 else 0)
           = int (card (fst ` set clustered - {- 1}))"
proof -
  have len: "length clustered = card (fst ` set clustered)"
    using distinct_card [OF assms] by simp
  show ?thesis
  proof (cases "- 1 \<in> fst ` set clustered")
    case True
    then have "card (fst ` set clustered - {- 1}) = card (fst ` set clustered) - 1"
      by simp
    moreover have "0 < card (fst ` set clustered)"
      using True by (auto simp: card_gt_0_iff)
    ultimately show ?thesis
      using True len by simp
  next
    case False
    then show ?thesis
      using len by simp
  qed
qed

lemma non_negative_labels:
  "\<forall>l \<in> A. - 1 \<le> l \<Longrightarrow> A - {- 1} = {l \<in> A. (0::int) \<le> l}"
  by auto

subsection \<open>The grouping\<close>

text \<open>
  C4: when DBSCAN returns one label for every name, the grouping that \<^verbatim>\<open>clusternames\<close>
  returns is a partition of the corpus. The groups together hold the names of the corpus
  as a multiset; no label has two groups and every label has one; the group of a label
  holds the names at the positions with that label, in the order of the corpus, so that
  every position of the corpus is in the group of its label and in no other.
\<close>

theorem clusternames_partition:
  assumes "cluster_labels lib names = Inr labels" and "length labels = length names"
  shows "\<exists>ordered. clusternames lib names = Inr ordered
     \<and> mset (concat (map snd ordered)) = mset names
     \<and> distinct (map fst ordered)
     \<and> fst ` set ordered = set labels
     \<and> (\<forall>(k, g) \<in> set ordered.
           g = map ((!) names) (filter (\<lambda>i. labels ! i = k) [0 ..< length names]))"
proof -
  let ?ordered = "order_names labels names"
  have gr: "grouped (zip labels names) ?ordered"
    by (rule grouped_order_names)
  have "clusternames lib names = Inr ?ordered"
    using assms(1) by (simp add: clusternames_def)
  moreover have "mset (concat (map snd ?ordered)) = mset names"
    using grouped_mset [OF gr] assms(2) by simp
  moreover have "distinct (map fst ?ordered)"
    using gr by (simp add: grouped_def)
  moreover have "fst ` set ?ordered = set labels"
  proof -
    have "fst ` set ?ordered = set (map fst (zip labels names))"
      using gr by (simp add: grouped_def)
    then show ?thesis
      using assms(2) by simp
  qed
  moreover have "\<forall>(k, g) \<in> set ?ordered.
      g = map ((!) names) (filter (\<lambda>i. labels ! i = k) [0 ..< length names])"
    using gr by (simp add: grouped_def group_by_index [OF assms(2)])
  ultimately show ?thesis
    by blast
qed

theorem clusternames_partition_witness:
  "cluster_labels
     \<lparr>scaler_fit_transform = Inr, pca_fit_transform = (\<lambda>k X. Inr X),
      dbscan_fit_predict = (\<lambda>eps m X. Inr [0, - 1, 0])\<rparr>
     [''foo1'', ''bar'', ''foo2''] = (Inr [0, - 1, 0] :: unit + int list)
   \<and> length [0 :: int, - 1, 0] = length [''foo1'', ''bar'', ''foo2'']
   \<and> clusternames
     \<lparr>scaler_fit_transform = Inr, pca_fit_transform = (\<lambda>k X. Inr X),
      dbscan_fit_predict = (\<lambda>eps m X. Inr [0, - 1, 0])\<rparr>
     [''foo1'', ''bar'', ''foo2'']
       = (Inr [(0, [''foo1'', ''foo2'']), (- 1, [''bar''])] :: unit + (int \<times> string list) list)"
  using clusternames_partition [of
     "\<lparr>scaler_fit_transform = Inr, pca_fit_transform = (\<lambda>k X. Inr X),
      dbscan_fit_predict = (\<lambda>eps m X. Inr [0, - 1, 0])\<rparr> :: (unit, real list list) sklearn"
     "[''foo1'', ''bar'', ''foo2'']" "[0, - 1, 0]"]
  by (simp add: clusternames_def cluster_labels_def build_features_def order_names_def)

text \<open>
  C10: every entry of the grouping that \<^verbatim>\<open>clusternames\<close> returns holds a list that is not
  empty, whatever the library routines returned, so that \<^verbatim>\<open>print_clusters\<close> reads
  \<^verbatim>\<open>contents[0]\<close> of no empty list and raises no IndexError.
\<close>

theorem clusternames_groups_nonempty:
  assumes "clusternames lib names = Inr ordered"
  shows "(\<forall>(k, g) \<in> set ordered. g \<noteq> []) \<and> (\<exists>out. print_clusters ordered = Inr out)"
proof -
  obtain labels where ordered: "ordered = order_names labels names"
    using assms by (auto simp: clusternames_Inr)
  have ne: "\<And>k g. (k, g) \<in> set ordered \<Longrightarrow> g \<noteq> []"
    unfolding ordered by (rule order_names_nonempty)
  then obtain out where "print_each ordered = Inr out"
    using print_each_nonempty [of ordered] by blast
  then have "\<exists>out. print_clusters ordered = Inr out"
    using print_clusters_last by blast
  then show ?thesis
    using ne by blast
qed

theorem clusternames_groups_nonempty_witness:
  "clusternames
     \<lparr>scaler_fit_transform = Inr, pca_fit_transform = (\<lambda>k X. Inr X),
      dbscan_fit_predict = (\<lambda>eps m X. Inr [- 1, 0, 0])\<rparr>
     [''x'', ''ab1'', ''ab2'']
       = (Inr [(- 1, [''x'']), (0, [''ab1'', ''ab2''])] :: unit + (int \<times> string list) list)
   \<and> print_clusters [(- 1, [''x'']), (0, [''ab1'', ''ab2''])]
       = Inr [''[*] --- Outside any cluster ---'', ''[+] x'',
              ''[*] --- Cluster: ab1 ---'', ''[+] ab1'', ''[+] ab2'',
              ''[*] Estimated number of clusters: 1'']"
  using clusternames_groups_nonempty [of
     "\<lparr>scaler_fit_transform = Inr, pca_fit_transform = (\<lambda>k X. Inr X),
      dbscan_fit_predict = (\<lambda>eps m X. Inr [- 1, 0, 0])\<rparr> :: (unit, real list list) sklearn"
     "[''x'', ''ab1'', ''ab2'']" "[(- 1, [''x'']), (0, [''ab1'', ''ab2''])]"]
  by (simp add: clusternames_def cluster_labels_def build_features_def order_names_def
      print_clusters_def format_d_def digits.simps)

text \<open>
  C8: for a grouping made by \<^verbatim>\<open>clusternames\<close> from labels that are \<open>- 1\<close> (noise) or not
  negative, one for every name, the last line that \<^verbatim>\<open>print_clusters\<close> prints is
  \<^verbatim>\<open>[*] Estimated number of clusters: \<close> followed by the number of distinct labels that
  are not negative, which is the number of groups other than the noise group.
\<close>

theorem print_clusters_count:
  assumes "cluster_labels lib names = Inr labels" and "length labels = length names"
    and "\<forall>l \<in> set labels. - 1 \<le> l"
  shows "\<exists>ordered out. clusternames lib names = Inr ordered \<and> print_clusters ordered = Inr out
     \<and> out \<noteq> []
     \<and> last out = ''[*] Estimated number of clusters: ''
          @ format_d (int (card {l \<in> set labels. 0 \<le> l}))
     \<and> card {l \<in> set labels. 0 \<le> l} = length (filter (\<lambda>(k, g). k \<noteq> - 1) ordered)"
proof -
  let ?ordered = "order_names labels names"
  have run: "clusternames lib names = Inr ?ordered"
    using assms(1) by (simp add: clusternames_def)
  have keys: "fst ` set ?ordered = set labels"
    by (rule order_names_keys [OF assms(2)])
  have d: "distinct (map fst ?ordered)"
    by (rule order_names_distinct)
  have clusters: "fst ` set ?ordered - {- 1} = {l \<in> set labels. 0 \<le> l}"
    unfolding keys by (rule non_negative_labels [OF assms(3)])
  obtain out0 where "print_each ?ordered = Inr out0"
    using print_each_nonempty [of ?ordered] order_names_nonempty by blast
  then obtain out where out: "print_clusters ?ordered = Inr out" "out \<noteq> []"
    "last out = ''[*] Estimated number of clusters: ''
       @ format_d (int (length ?ordered) - (if - 1 \<in> fst ` set ?ordered then 1 else 0))"
    using print_clusters_last by blast
  have "last out = ''[*] Estimated number of clusters: ''
       @ format_d (int (card {l \<in> set labels. 0 \<le> l}))"
    using out(3) count_without_noise [OF d] clusters by simp
  moreover have "card {l \<in> set labels. 0 \<le> l} = length (filter (\<lambda>(k, g). k \<noteq> - 1) ?ordered)"
    using length_filter_not_noise [OF d] clusters by simp
  ultimately show ?thesis
    using run out(1,2) by blast
qed

theorem print_clusters_count_witness:
  "cluster_labels
     \<lparr>scaler_fit_transform = Inr, pca_fit_transform = (\<lambda>k X. Inr X),
      dbscan_fit_predict = (\<lambda>eps m X. Inr [1, 0, 1, - 1])\<rparr>
     [''a1'', ''b1'', ''a2'', ''c''] = (Inr [1, 0, 1, - 1] :: unit + int list)
   \<and> length [1 :: int, 0, 1, - 1] = length [''a1'', ''b1'', ''a2'', ''c'']
   \<and> list_all (\<lambda>l. - 1 \<le> l) [1 :: int, 0, 1, - 1]
   \<and> print_clusters (order_names [1, 0, 1, - 1] [''a1'', ''b1'', ''a2'', ''c''])
       = Inr [''[*] --- Cluster: a1 ---'', ''[+] a1'', ''[+] a2'',
              ''[*] --- Cluster: b1 ---'', ''[+] b1'',
              ''[*] --- Outside any cluster ---'', ''[+] c'',
              ''[*] Estimated number of clusters: 2'']"
  using print_clusters_count [of
     "\<lparr>scaler_fit_transform = Inr, pca_fit_transform = (\<lambda>k X. Inr X),
      dbscan_fit_predict = (\<lambda>eps m X. Inr [1, 0, 1, - 1])\<rparr> :: (unit, real list list) sklearn"
     "[''a1'', ''b1'', ''a2'', ''c'']" "[1, 0, 1, - 1]"]
  by (simp add: cluster_labels_def build_features_def order_names_def
      print_clusters_def format_d_def digits.simps)

subsection \<open>A corpus with no n-gram\<close>

lemma build_ngrams_all_short:
  assumes "\<forall>name \<in> set names. length name < N"
  shows "build_ngrams names = []"
proof -
  have "set (build_ngrams names) = {}"
  proof (rule ccontr)
    assume "set (build_ngrams names) \<noteq> {}"
    then obtain g name where "length g = N" "name \<in> set names" "sublist g name"
      by (auto simp: set_build_ngrams)
    then show False
      using assms sublist_length_le [of g name] by auto
  qed
  then show ?thesis
    by simp
qed

lemma features_X_no_ngrams:
  "build_ngrams names = [] \<Longrightarrow> features_X names = replicate (length names) []"
proof -
  assume "build_ngrams names = []"
  then have "features_X names = map (\<lambda>name. []) names"
    by (simp add: features_X_def build_def)
  then show ?thesis
    by (simp add: map_replicate_const)
qed

text \<open>
  C3, as stated, fails: the program has no error of its own. For the corpus of two empty
  strings the vocabulary is empty; when the normaliser rejects the matrix without columns,
  what \<^verbatim>\<open>clusternames\<close> raises is the error of the normaliser, and when the library
  routines accept it, \<^verbatim>\<open>clusternames\<close> returns a grouping.
\<close>

theorem clusternames_empty_vocabulary_counterexample:
  "build_ngrams ['''', ''''] = []
   \<and> clusternames
       \<lparr>scaler_fit_transform = (\<lambda>X. if X = [] \<or> [] \<in> set X then Inl ''ValueError'' else Inr X),
        pca_fit_transform = (\<lambda>k X. Inr X),
        dbscan_fit_predict = (\<lambda>eps m X. Inr (map (\<lambda>row. - 1) X))\<rparr>
       ['''', ''''] = Inl ''ValueError''
   \<and> clusternames
       \<lparr>scaler_fit_transform = Inr, pca_fit_transform = (\<lambda>k X. Inr X),
        dbscan_fit_predict = (\<lambda>eps m X. Inr (map (\<lambda>row. - 1) X))\<rparr>
       ['''', ''''] = (Inr [(- 1, ['''', ''''])] :: string + (int \<times> string list) list)"
  by (simp add: clusternames_def cluster_labels_def build_features_def features_X_def build_def
      build_ngrams_def add_ngrams_def xrange_def N_def order_names_def)

text \<open>
  C3, amended: for a corpus in which every name is shorter than \<open>N\<close> (also the corpus
  of no names) the vocabulary is empty and the matrix of counts has one row without
  columns for every name. The program hands it to the normaliser unchecked and has no
  error of its own. When the normaliser raises on that matrix, or the reducer on what the
  normaliser returned, or DBSCAN on what the reducer returned, \<^verbatim>\<open>clusternames\<close> raises
  that same error; when \<^verbatim>\<open>clusternames\<close> raises, the error is the one that one of the
  three routines raised; and when the three routines return, \<^verbatim>\<open>clusternames\<close> returns
  the grouping of the names by the labels.
\<close>

theorem clusternames_empty_vocabulary:
  assumes "\<forall>name \<in> set names. length name < N"
  shows "build_ngrams names = [] \<and> features_X names = replicate (length names) []
     \<and> (\<forall>e. scaler_fit_transform lib (replicate (length names) []) = Inl e
           \<longrightarrow> clusternames lib names = Inl e)
     \<and> (\<forall>e X_s.
           scaler_fit_transform lib (replicate (length names) []) = Inr X_s
           \<and> pca_fit_transform lib N_COMPONENTS X_s = Inl e
           \<longrightarrow> clusternames lib names = Inl e)
     \<and> (\<forall>e X_s X_n.
           scaler_fit_transform lib (replicate (length names) []) = Inr X_s
           \<and> pca_fit_transform lib N_COMPONENTS X_s = Inr X_n
           \<and> dbscan_fit_predict lib EPSILON MIN_SAMPLES X_n = Inl e
           \<longrightarrow> clusternames lib names = Inl e)
     \<and> (\<forall>e. clusternames lib names = Inl e \<longrightarrow>
           scaler_fit_transform lib (replicate (length names) []) = Inl e
           \<or> (\<exists>X_s. scaler_fit_transform lib (replicate (length names) []) = Inr X_s
                \<and> (pca_fit_transform lib N_COMPONENTS X_s = Inl e
                    \<or> (\<exists>X_n. pca_fit_transform lib N_COMPONENTS X_s = Inr X_n
                         \<and> dbscan_fit_predict lib EPSILON MIN_SAMPLES X_n = Inl e))))
     \<and> (\<forall>X_s X_n labels.
           scaler_fit_transform lib (replicate (length names) []) = Inr X_s
           \<and> pca_fit_transform lib N_COMPONENTS X_s = Inr X_n
           \<and> dbscan_fit_predict lib EPSILON MIN_SAMPLES X_n = Inr labels
           \<longrightarrow> clusternames lib names = Inr (order_names labels names))"
proof -
  let ?X = "replicate (length names) []"
  have v: "build_ngrams names = []"
    using assms by (rule build_ngrams_all_short)
  then have X: "features_X names = ?X"
    by (rule features_X_no_ngrams)
  have scaler_raises: "clusternames lib names = Inl e"
    if "scaler_fit_transform lib ?X = Inl e" for e
    using that by (simp add: X clusternames_def cluster_labels_def build_features_def)
  have pca_raises: "clusternames lib names = Inl e"
    if "scaler_fit_transform lib ?X = Inr X_s" and "pca_fit_transform lib N_COMPONENTS X_s = Inl e"
    for e X_s
    using that by (simp add: X clusternames_def cluster_labels_def build_features_def)
  have dbscan_raises: "clusternames lib names = Inl e"
    if "scaler_fit_transform lib ?X = Inr X_s" and "pca_fit_transform lib N_COMPONENTS X_s = Inr X_n"
      and "dbscan_fit_predict lib EPSILON MIN_SAMPLES X_n = Inl e"
    for e X_s X_n
    using that by (simp add: X clusternames_def cluster_labels_def build_features_def)
  have returns: "clusternames lib names = Inr (order_names labels names)"
    if "scaler_fit_transform lib ?X = Inr X_s" and "pca_fit_transform lib N_COMPONENTS X_s = Inr X_n"
      and "dbscan_fit_predict lib EPSILON MIN_SAMPLES X_n = Inr labels"
    for X_s X_n labels
    using that by (simp add: X clusternames_def cluster_labels_def build_features_def)
  have raised: "scaler_fit_transform lib ?X = Inl e
      \<or> (\<exists>X_s. scaler_fit_transform lib ?X = Inr X_s
           \<and> (pca_fit_transform lib N_COMPONENTS X_s = Inl e
               \<or> (\<exists>X_n. pca_fit_transform lib N_COMPONENTS X_s = Inr X_n
                    \<and> dbscan_fit_predict lib EPSILON MIN_SAMPLES X_n = Inl e)))"
    if "clusternames lib names = Inl e" for e
    using that
    by (auto simp: X clusternames_def cluster_labels_def build_features_def split: sum.splits)
  show ?thesis
    using v X scaler_raises pca_raises dbscan_raises returns raised by blast
qed

theorem clusternames_empty_vocabulary_witness:
  "length '''' < N \<and> length ''a'' < N
   \<and> features_X [''a'', ''''] = [[], []]
   \<and> clusternames
       \<lparr>scaler_fit_transform = (\<lambda>X. if [] \<in> set X then Inl ''no features'' else Inr X),
        pca_fit_transform = (\<lambda>k X. Inr X),
        dbscan_fit_predict = (\<lambda>eps m X. Inr (map (\<lambda>row. - 1) X))\<rparr>
       [''a'', ''''] = Inl ''no features''
   \<and> clusternames
       \<lparr>scaler_fit_transform = Inr, pca_fit_transform = (\<lambda>k X. Inr X),
        dbscan_fit_predict = (\<lambda>eps m X. Inr (map (\<lambda>row. - 1) X))\<rparr>
       [''a'', ''''] = (Inr [(- 1, [''a'', ''''])] :: unit + (int \<times> string list) list)"
  using clusternames_empty_vocabulary [of "[''a'', '''']"
     "\<lparr>scaler_fit_transform = Inr, pca_fit_transform = (\<lambda>k X. Inr X),
      dbscan_fit_predict = (\<lambda>eps m X. Inr (map (\<lambda>row. - 1) X))\<rparr> :: (unit, real list list) sklearn"]
    clusternames_empty_vocabulary [of "[''a'', '''']"
     "\<lparr>scaler_fit_transform = (\<lambda>X. if [] \<in> set X then Inl ''no features'' else Inr X),
      pca_fit_transform = (\<lambda>k X. Inr X),
      dbscan_fit_predict = (\<lambda>eps m X. Inr (map (\<lambda>row. - 1) X))\<rparr> :: (string, real list list) sklearn"]
  by (simp add: N_def order_names_def)

end
